theory Spec2Isabelle
  imports Main
begin

section \<open>Data model (types.ts)\<close>

text \<open>
  The four page states of the enum \<^verbatim>\<open>PageStatus\<close>.
\<close>

datatype PageStatus = PENDING | PROCESSING | COMPLETED | FAILED

text \<open>
  A browser \<^verbatim>\<open>File\<close>: its name, its MIME type (the field \<^verbatim>\<open>type\<close>) and its bytes.
\<close>

record File =
  fname :: string
  ftype :: string
  fdata :: string

text \<open>
  The interface \<^verbatim>\<open>Page\<close>. The fields \<^verbatim>\<open>id\<close>, \<^verbatim>\<open>file\<close> and \<^verbatim>\<open>text\<close> are written
  \<open>id_p\<close>, \<open>file_p\<close> and \<open>text_p\<close> (the plain names are taken in Isabelle). The optional fields
  are options: \<open>None\<close> is JavaScript's \<^verbatim>\<open>undefined\<close>.
\<close>

record Page =
  id_p :: string
  file_p :: File
  status :: PageStatus
  previewUrl :: string
  text_p :: "string option"
  error :: "string option"

text \<open>
  How an awaited call of \<^verbatim>\<open>extractTextFromImage\<close> settles. The service is external:
  it resolves with a text, or rejects with an \<^verbatim>\<open>Error\<close> carrying a message, or
  rejects with a value that is no \<^verbatim>\<open>Error\<close>.
\<close>

datatype OcrOutcome = Resolved string | RejectedError string | RejectedOther

text \<open>
  What pdf.js and the canvas give for one page of the document: \<open>None\<close> where the
  callback returns \<^verbatim>\<open>null\<close> (no 2d context, or no blob), otherwise the identifier
  drawn by \<^verbatim>\<open>crypto.randomUUID\<close>, the preview data URL and the JPEG bytes.
\<close>

record Rendered =
  uuid :: string
  preview :: string
  jpeg :: string

text \<open>
  The outcome of the \<^verbatim>\<open>try\<close> block of \<^verbatim>\<open>handlePdfFile\<close>: some awaited promise
  rejects (\<open>DecodeError\<close>), or every page callback returns.
\<close>

datatype PdfOutcome = DecodeError | Decoded "Rendered option list"

text \<open>
  The asynchronous operation that is awaiting calls of the OCR service: a batch with the
  identifiers of the pages whose call has not settled yet, or a retry of one page.
\<close>

datatype Task = BatchTask "string list" | RetryTask string

text \<open>
  The state of the component \<^verbatim>\<open>App\<close>: its six \<^verbatim>\<open>useState\<close> cells, the messages
  shown so far by \<^verbatim>\<open>alert\<close> (oldest first), and the operation in flight.
\<close>

record App =
  pages :: "Page list"
  selectedPages :: "string set"
  isProcessing :: bool
  isDragging :: bool
  isPdfLoading :: bool
  copySuccess :: string
  alerts :: "string list"
  inflight :: "Task option"

definition initialState :: App where
  "initialState = \<lparr>pages = [], selectedPages = {}, isProcessing = False, isDragging = False,
     isPdfLoading = False, copySuccess = [], alerts = [], inflight = None\<rparr>"

section \<open>Decimal rendering of numbers in template literals\<close>

definition digit :: "nat \<Rightarrow> char" where
  "digit d = char_of (48 + d)"

function showNat :: "nat \<Rightarrow> string" where
  "showNat n = (if n < 10 then [digit n] else showNat (n div 10) @ [digit (n mod 10)])"
  by pat_completeness auto
termination
  by (relation "measure id") auto

declare showNat.simps [simp del]

definition showInt :: "int \<Rightarrow> string" where
  "showInt i = (if i < 0 then CHR ''-'' # showNat (nat (- i)) else showNat (nat i))"

section \<open>Upload: handlePdfFile and handleDrop\<close>

text \<open>
  The page object built at lines 54 to 61 for the page number \<open>pageNum\<close>.
\<close>

definition newPage :: "nat \<Rightarrow> Rendered \<Rightarrow> Page" where
  "newPage pageNum r =
     \<lparr>id_p = uuid r,
      file_p = \<lparr>fname = ''page_'' @ showNat pageNum @ ''.jpg'', ftype = ''image/jpeg'',
               fdata = jpeg r\<rparr>,
      status = PENDING,
      previewUrl = preview r,
      text_p = None,
      error = None\<rparr>"

text \<open>
  Lines 36 to 65: the callback runs for \<open>i = 0, 1, ...\<close> with \<open>pageNum = i + 1\<close>, and the
  \<^verbatim>\<open>null\<close> results are filtered out.
\<close>

fun newPagesFrom :: "nat \<Rightarrow> Rendered option list \<Rightarrow> Page list" where
  "newPagesFrom i [] = []"
| "newPagesFrom i (None # rs) = newPagesFrom (Suc i) rs"
| "newPagesFrom i (Some r # rs) = newPage (i + 1) r # newPagesFrom (Suc i) rs"

definition newPages :: "Rendered option list \<Rightarrow> Page list" where
  "newPages rs = newPagesFrom 0 rs"

definition invalidPdfAlert :: string where
  "invalidPdfAlert = ''Please upload a valid PDF file.''"

definition pdfErrorAlert :: string where
  "pdfErrorAlert =
     ''There was an error processing the PDF. Please ensure it'' @ [CHR 0x27] @ ''s a valid file.''"

text \<open>
  \<^verbatim>\<open>handlePdfFile\<close>, run to its end with the outcome of the decoding given. While
  the decoding is awaited the page list and the selection are empty and isPdfLoading is
  up, so the component renders no control that could run another handler; the handler
  is therefore taken as one step.
\<close>

definition handlePdfFile :: "File option \<Rightarrow> PdfOutcome \<Rightarrow> App \<Rightarrow> App" where
  "handlePdfFile pdfFile outcome st =
     (case pdfFile of
        None \<Rightarrow> st\<lparr>alerts := alerts st @ [invalidPdfAlert]\<rparr>
      | Some f \<Rightarrow>
          if ftype f \<noteq> ''application/pdf'' then st\<lparr>alerts := alerts st @ [invalidPdfAlert]\<rparr>
          else
            let st1 = st\<lparr>pages := [], selectedPages := {}, isPdfLoading := True,
                         copySuccess := []\<rparr>
            in (case outcome of
                  DecodeError \<Rightarrow>
                    st1\<lparr>alerts := alerts st1 @ [pdfErrorAlert], isPdfLoading := False\<rparr>
                | Decoded rs \<Rightarrow> st1\<lparr>pages := newPages rs, isPdfLoading := False\<rparr>))"

definition handleDrop :: "File list \<Rightarrow> PdfOutcome \<Rightarrow> App \<Rightarrow> App" where
  "handleDrop files outcome st =
     (let st1 = st\<lparr>isDragging := False\<rparr>
      in case files of [] \<Rightarrow> st1 | f # _ \<Rightarrow> handlePdfFile (Some f) outcome st1)"

definition handleDragEvents :: "string \<Rightarrow> App \<Rightarrow> App" where
  "handleDragEvents ty st =
     (if ty = ''dragenter'' \<or> ty = ''dragover'' then st\<lparr>isDragging := True\<rparr>
      else if ty = ''dragleave'' then st\<lparr>isDragging := False\<rparr>
      else st)"

section \<open>Selection: handleToggleSelectPage and handleSelectAll\<close>

definition handleToggleSelectPage :: "string \<Rightarrow> App \<Rightarrow> App" where
  "handleToggleSelectPage pageId st =
     st\<lparr>selectedPages :=
          (if pageId \<in> selectedPages st then selectedPages st - {pageId}
           else insert pageId (selectedPages st))\<rparr>"

definition processable :: "Page \<Rightarrow> bool" where
  "processable p = (status p = PENDING \<or> status p = FAILED)"

definition processablePageIds :: "App \<Rightarrow> string list" where
  "processablePageIds st = map id_p (filter processable (pages st))"

definition allProcessableSelected :: "App \<Rightarrow> bool" where
  "allProcessableSelected st =
     (length (processablePageIds st) > 0 \<and>
      list_all (\<lambda>i. i \<in> selectedPages st) (processablePageIds st))"

definition handleSelectAll :: "App \<Rightarrow> App" where
  "handleSelectAll st =
     (if allProcessableSelected st then st\<lparr>selectedPages := {}\<rparr>
      else st\<lparr>selectedPages := set (processablePageIds st)\<rparr>)"

section \<open>The state updaters passed to setPages\<close>

text \<open>
  Each updater maps over the current page list and replaces the pages carrying the given
  identifier (lines 105, 111, 116 of the batch; lines 136, 142, 147 of the retry).
\<close>

definition setProcessing :: "string \<Rightarrow> Page list \<Rightarrow> Page list" where
  "setProcessing pageId prev =
     map (\<lambda>p. if id_p p = pageId then p\<lparr>status := PROCESSING\<rparr> else p) prev"

definition setRetrying :: "string \<Rightarrow> Page list \<Rightarrow> Page list" where
  "setRetrying pageId prev =
     map (\<lambda>p. if id_p p = pageId then p\<lparr>status := PROCESSING, error := None\<rparr> else p) prev"

definition setCompleted :: "string \<Rightarrow> string \<Rightarrow> Page list \<Rightarrow> Page list" where
  "setCompleted pageId t prev =
     map (\<lambda>p. if id_p p = pageId then p\<lparr>status := COMPLETED, text_p := Some t\<rparr> else p) prev"

definition setFailed :: "string \<Rightarrow> string \<Rightarrow> Page list \<Rightarrow> Page list" where
  "setFailed pageId errorMessage prev =
     map (\<lambda>p. if id_p p = pageId then p\<lparr>status := FAILED, error := Some errorMessage\<rparr> else p)
       prev"

text \<open>
  The \<^verbatim>\<open>try\<close>/\<^verbatim>\<open>catch\<close> around the awaited call, the same text in the batch (lines
  109 to 119) and in the retry (lines 140 to 150).
\<close>

definition settle :: "string \<Rightarrow> OcrOutcome \<Rightarrow> Page list \<Rightarrow> Page list" where
  "settle pageId outcome prev =
     (case outcome of
        Resolved t \<Rightarrow> setCompleted pageId t prev
      | RejectedError m \<Rightarrow> setFailed pageId m prev
      | RejectedOther \<Rightarrow> setFailed pageId ''An unknown error occurred.'' prev)"

section \<open>Batch dispatch: processSelectedPages\<close>

text \<open>
  Line 100. The handler reads \<^verbatim>\<open>pages\<close> and \<^verbatim>\<open>selectedPages\<close> of the latest render,
  which is the current state when it runs.
\<close>

definition pagesToProcess :: "App \<Rightarrow> Page list" where
  "pagesToProcess st = filter (\<lambda>p. id_p p \<in> selectedPages st) (pages st)"

text \<open>
  The pages of \<open>pagesToProcess\<close> that pass the status test of line 103: for these an OCR
  call is made.
\<close>

definition dispatched :: "App \<Rightarrow> Page list" where
  "dispatched st = filter processable (pagesToProcess st)"

text \<open>
  The synchronous part of \<^verbatim>\<open>processSelectedPages\<close>: every callback of line 102 runs up
  to its \<^verbatim>\<open>await\<close>, so every dispatched page is marked before anything else happens.
\<close>

definition processSelectedPages_start :: "App \<Rightarrow> App" where
  "processSelectedPages_start st =
     (if selectedPages st = {} then st
      else st\<lparr>isProcessing := True,
              pages := fold (\<lambda>page prev. setProcessing (id_p page) prev) (dispatched st) (pages st),
              inflight := Some (BatchTask (map id_p (dispatched st)))\<rparr>)"

text \<open>
  The continuation of one callback once its OCR call has settled.
\<close>

definition batchOcrDone :: "string \<Rightarrow> OcrOutcome \<Rightarrow> App \<Rightarrow> App" where
  "batchOcrDone pageId outcome st =
     st\<lparr>pages := settle pageId outcome (pages st),
        inflight := (case inflight st of
                       Some (BatchTask ids) \<Rightarrow> Some (BatchTask (remove1 pageId ids))
                     | t \<Rightarrow> t)\<rparr>"

text \<open>
  Lines 124 and 125, run once \<^verbatim>\<open>Promise.all\<close> has resolved.
\<close>

definition batchDone :: "App \<Rightarrow> App" where
  "batchDone st = st\<lparr>selectedPages := {}, isProcessing := False, inflight := None\<rparr>"

text \<open>
  The whole operation: \<open>ocr\<close> gives how the call made for a page settles, and \<open>order\<close>
  is the order in which the dispatched calls settle.
\<close>

definition processSelectedPages :: "(Page \<Rightarrow> OcrOutcome) \<Rightarrow> Page list \<Rightarrow> App \<Rightarrow> App" where
  "processSelectedPages ocr order st =
     (if selectedPages st = {} then st
      else batchDone
             (fold (\<lambda>page. batchOcrDone (id_p page) (ocr page)) order
                (processSelectedPages_start st)))"

section \<open>Retry: retryPageProcessing\<close>

text \<open>
  The synchronous part, up to the \<^verbatim>\<open>await\<close> of line 141. The handler has no test on
  the status of the page; the local \<^verbatim>\<open>tempSelection\<close> is never read.
\<close>

definition retryPageProcessing_start :: "string \<Rightarrow> App \<Rightarrow> App" where
  "retryPageProcessing_start pageId st =
     (case find (\<lambda>p. id_p p = pageId) (pages st) of
        None \<Rightarrow> st
      | Some pageToRetry \<Rightarrow>
          if isProcessing st then st
          else st\<lparr>isProcessing := True,
                  pages := setRetrying pageId (pages st),
                  inflight := Some (RetryTask pageId)\<rparr>)"

text \<open>
  The continuation once the call has settled: lines 142 to 152.
\<close>

definition retryOcrDone :: "string \<Rightarrow> OcrOutcome \<Rightarrow> App \<Rightarrow> App" where
  "retryOcrDone pageId outcome st =
     st\<lparr>pages := settle pageId outcome (pages st), isProcessing := False, inflight := None\<rparr>"


section \<open>The combined text\<close>

text \<open>
  \<^verbatim>\<open>Array.prototype.findIndex\<close>: the first index whose element satisfies the test, or -1.
\<close>

fun findIndex :: "('a \<Rightarrow> bool) \<Rightarrow> 'a list \<Rightarrow> int" where
  "findIndex P [] = - 1"
| "findIndex P (x # xs) =
     (if P x then 0 else (let r = findIndex P xs in if r < 0 then - 1 else r + 1))"

text \<open>
  \<^verbatim>\<open>Array.prototype.join\<close>.
\<close>

fun joinStr :: "string \<Rightarrow> string list \<Rightarrow> string" where
  "joinStr sep [] = []"
| "joinStr sep [x] = x"
| "joinStr sep (x # y # ys) = x @ sep @ joinStr sep (y # ys)"

text \<open>
  The Bengali word of the header, as its UTF-8 bytes.
\<close>

definition pageWord :: string where
  "pageWord = [CHR 0xE0, CHR 0xA6, CHR 0xAA, CHR 0xE0, CHR 0xA7, CHR 0x83,
               CHR 0xE0, CHR 0xA6, CHR 0xB7, CHR 0xE0, CHR 0xA7, CHR 0x8D,
               CHR 0xE0, CHR 0xA6, CHR 0xA0, CHR 0xE0, CHR 0xA6, CHR 0xBE]"

definition newlines :: string where
  "newlines = [CHR 0x0A, CHR 0x0A]"

text \<open>
  A string in a condition is true when it is defined and not empty.
\<close>

definition truthy :: "string option \<Rightarrow> bool" where
  "truthy t = (case t of None \<Rightarrow> False | Some s \<Rightarrow> s \<noteq> [])"

text \<open>
  The template literal of line 197; an undefined text would print as \<^verbatim>\<open>undefined\<close>.
\<close>

definition entry :: "int \<Rightarrow> string option \<Rightarrow> string" where
  "entry n t =
     ''--- '' @ pageWord @ '' '' @ showInt n @ '' ---'' @ newlines @
     (case t of None \<Rightarrow> ''undefined'' | Some s \<Rightarrow> s)"

definition combinedText :: "Page list \<Rightarrow> string" where
  "combinedText ps =
     joinStr newlines
       (map (\<lambda>p. entry (findIndex (\<lambda>originalPage. id_p originalPage = id_p p) ps + 1) (text_p p))
          (filter (\<lambda>p. status p = COMPLETED \<and> truthy (text_p p)) ps))"

section \<open>The component as a transition system\<close>

text \<open>
  One event is one handler run by the user through a control the component renders, or
  one continuation run when an awaited promise settles. Every handler sees the state of
  the latest render.
\<close>

datatype Event =
    Upload "File option" PdfOutcome
  | Drop "File list" PdfOutcome
  | Drag string
  | Toggle string
  | SelectAll
  | ProcessSelected
  | RetryClick string
  | BatchOcrSettled string OcrOutcome
  | BatchSettled
  | RetryOcrSettled OcrOutcome
  | CopyNote string

text \<open>
  The drop zone and the file input are rendered under the condition of line 238.
\<close>

definition uploadVisible :: "App \<Rightarrow> bool" where
  "uploadVisible st = (\<not> isProcessing st \<and> pages st = [] \<and> \<not> isPdfLoading st)"

text \<open>
  The identifiers come from \<^verbatim>\<open>crypto.randomUUID\<close>: no two pages of a decoded document
  get the same one.
\<close>

definition freshIds :: "PdfOutcome \<Rightarrow> bool" where
  "freshIds outcome =
     (case outcome of DecodeError \<Rightarrow> True | Decoded rs \<Rightarrow> distinct (map id_p (newPages rs)))"

text \<open>
  When an event can happen. The panel with the select-all box, the process button and the
  page cards is rendered when there are pages (line 268); the box is disabled as at line
  297 and the button as at line 309; a card toggles its page (line 322); the retry button
  is rendered on a card whose page is FAILED (lines 340 to 344); a continuation runs when
  its promise is pending. The copy button is rendered when some page is COMPLETED (line
  361); \<^verbatim>\<open>copyToClipboard\<close> and its timers only write one of three strings to
  copySuccess, which is all the event \<open>CopyNote\<close> keeps of them.
\<close>

fun enabled :: "App \<Rightarrow> Event \<Rightarrow> bool" where
  "enabled st (Upload pdfFile outcome) = (uploadVisible st \<and> freshIds outcome)"
| "enabled st (Drop files outcome) = (uploadVisible st \<and> freshIds outcome)"
| "enabled st (Drag ty) = uploadVisible st"
| "enabled st (Toggle pageId) = (pageId \<in> set (map id_p (pages st)))"
| "enabled st SelectAll =
     (pages st \<noteq> [] \<and> \<not> (length (processablePageIds st) = 0 \<or> isProcessing st))"
| "enabled st ProcessSelected =
     (pages st \<noteq> [] \<and> \<not> (selectedPages st = {} \<or> isProcessing st))"
| "enabled st (RetryClick pageId) =
     list_ex (\<lambda>p. id_p p = pageId \<and> status p = FAILED) (pages st)"
| "enabled st (BatchOcrSettled pageId outcome) =
     (case inflight st of Some (BatchTask ids) \<Rightarrow> pageId \<in> set ids | _ \<Rightarrow> False)"
| "enabled st BatchSettled = (inflight st = Some (BatchTask []))"
| "enabled st (RetryOcrSettled outcome) =
     (case inflight st of Some (RetryTask pageId) \<Rightarrow> True | _ \<Rightarrow> False)"
| "enabled st (CopyNote s) =
     (filter (\<lambda>p. status p = COMPLETED) (pages st) \<noteq> [] \<and>
      (s = ''Copied!'' \<or> s = ''Failed to copy!'' \<or> s = []))"

fun fire :: "Event \<Rightarrow> App \<Rightarrow> App" where
  "fire (Upload pdfFile outcome) st = handlePdfFile pdfFile outcome st"
| "fire (Drop files outcome) st = handleDrop files outcome st"
| "fire (Drag ty) st = handleDragEvents ty st"
| "fire (Toggle pageId) st = handleToggleSelectPage pageId st"
| "fire SelectAll st = handleSelectAll st"
| "fire ProcessSelected st = processSelectedPages_start st"
| "fire (RetryClick pageId) st = retryPageProcessing_start pageId st"
| "fire (BatchOcrSettled pageId outcome) st = batchOcrDone pageId outcome st"
| "fire BatchSettled st = batchDone st"
| "fire (RetryOcrSettled outcome) st =
     (case inflight st of Some (RetryTask pageId) \<Rightarrow> retryOcrDone pageId outcome st | _ \<Rightarrow> st)"
| "fire (CopyNote s) st = st\<lparr>copySuccess := s\<rparr>"

text \<open>
  Running a trace of events: \<open>None\<close> when some event of the trace cannot happen.
\<close>

fun run :: "Event list \<Rightarrow> App \<Rightarrow> App option" where
  "run [] st = Some st"
| "run (e # es) st = (if enabled st e then run es (fire e st) else None)"

section \<open>Auxiliary definitions for the statements and sample inputs\<close>

text \<open>
  What \<open>settle\<close> does to a single page that carries the identifier.
\<close>

definition finish :: "OcrOutcome \<Rightarrow> Page \<Rightarrow> Page" where
  "finish outcome p =
     (case outcome of
        Resolved t \<Rightarrow> p\<lparr>status := COMPLETED, text_p := Some t\<rparr>
      | RejectedError m \<Rightarrow> p\<lparr>status := FAILED, error := Some m\<rparr>
      | RejectedOther \<Rightarrow> p\<lparr>status := FAILED, error := Some ''An unknown error occurred.''\<rparr>)"

text \<open>
  The identifiers of the pages whose OCR call is awaited by the operation in flight.
\<close>

definition awaited :: "App \<Rightarrow> string set" where
  "awaited st =
     (case inflight st of
        None \<Rightarrow> {}
      | Some (BatchTask ids) \<Rightarrow> set ids
      | Some (RetryTask pageId) \<Rightarrow> {pageId})"

text \<open>
  The invariant of the reachable states: identifiers are unique, no decoding is pending
  between two events, isProcessing is up exactly while an operation is in flight, the
  pages in PROCESSING are the awaited ones, a text is present exactly on the COMPLETED
  pages, and a PENDING page has no error.
\<close>

definition wellFormed :: "App \<Rightarrow> bool" where
  "wellFormed st =
     (distinct (map id_p (pages st)) \<and>
      \<not> isPdfLoading st \<and>
      isProcessing st = (inflight st \<noteq> None) \<and>
      (case inflight st of Some (BatchTask ids) \<Rightarrow> distinct ids | _ \<Rightarrow> True) \<and>
      (\<forall>p\<in>set (pages st). (status p = PROCESSING) = (id_p p \<in> awaited st)) \<and>
      (\<forall>p\<in>set (pages st). (text_p p \<noteq> None) = (status p = COMPLETED)) \<and>
      (\<forall>p\<in>set (pages st). status p = PENDING \<longrightarrow> error p = None))"

text \<open>
  The status changes of section 4.1, and no change.
\<close>

definition allowedTransition :: "PageStatus \<Rightarrow> PageStatus \<Rightarrow> bool" where
  "allowedTransition a b =
     (a = b \<or> (a = PENDING \<and> b = PROCESSING) \<or> (a = PROCESSING \<and> b = COMPLETED) \<or>
      (a = PROCESSING \<and> b = FAILED) \<or> (a = FAILED \<and> b = PROCESSING))"

fun isUpload :: "Event \<Rightarrow> bool" where
  "isUpload (Upload pdfFile outcome) = True"
| "isUpload (Drop files outcome) = True"
| "isUpload e = False"

definition samplePage :: "string \<Rightarrow> PageStatus \<Rightarrow> string option \<Rightarrow> string option \<Rightarrow> Page" where
  "samplePage i s t e =
     \<lparr>id_p = i, file_p = \<lparr>fname = ''page_1.jpg'', ftype = ''image/jpeg'', fdata = []\<rparr>,
      status = s, previewUrl = [], text_p = t, error = e\<rparr>"

definition sampleState :: "Page list \<Rightarrow> string set \<Rightarrow> App" where
  "sampleState ps sel = initialState\<lparr>pages := ps, selectedPages := sel\<rparr>"

definition samplePdf :: File where
  "samplePdf = \<lparr>fname = ''book.pdf'', ftype = ''application/pdf'', fdata = []\<rparr>"

definition fourPages :: "Page list" where
  "fourPages = [samplePage ''a'' PENDING None None, samplePage ''b'' FAILED None (Some ''boom''),
                samplePage ''c'' COMPLETED (Some ''old'') None, samplePage ''d'' PENDING None None]"

definition sampleOcr :: "Page \<Rightarrow> OcrOutcome" where
  "sampleOcr p = (if id_p p = ''b'' then RejectedError ''net'' else Resolved ''new'')"

definition sixPages :: "Page list" where
  "sixPages = fourPages @ [samplePage ''e'' COMPLETED (Some []) None,
                           samplePage ''f'' COMPLETED (Some ''more'') None]"

definition renderedA :: Rendered where
  "renderedA = \<lparr>uuid = ''a'', preview = ''data:a'', jpeg = ''jpeg-a''\<rparr>"

definition renderedB :: Rendered where
  "renderedB = \<lparr>uuid = ''b'', preview = ''data:b'', jpeg = ''jpeg-b''\<rparr>"

definition uploadTwo :: Event where
  "uploadTwo = Upload (Some samplePdf) (Decoded [Some renderedA, None, Some renderedB])"

definition traceDispatched :: "Event list" where
  "traceDispatched = [uploadTwo, Toggle ''a'', Toggle ''b'', ProcessSelected]"

definition traceSettled :: "Event list" where
  "traceSettled = traceDispatched @
     [BatchOcrSettled ''b'' (Resolved ''two''), Toggle ''b'',
      BatchOcrSettled ''a'' (RejectedError ''boom'')]"


definition traceRedispatched :: "Event list" where
  "traceRedispatched = traceSettled @ [BatchSettled, SelectAll, ProcessSelected]"

definition summary :: "App \<Rightarrow> (string \<times> PageStatus \<times> string option \<times> string option) list" where
  "summary st = map (\<lambda>p. (id_p p, status p, text_p p, error p)) (pages st)"

lemmas sample_defs = samplePage_def sampleState_def samplePdf_def fourPages_def sampleOcr_def
  initialState_def

section \<open>The updaters in closed form\<close>

lemma settle_map: "settle i out ps = map (\<lambda>q. if id_p q = i then finish out q else q) ps"
  by (cases out) (simp_all add: settle_def setCompleted_def setFailed_def finish_def)

lemma id_finish [simp]: "id_p (finish out q) = id_p q"
  by (cases out) (simp_all add: finish_def)

lemma fold_setProcessing:
  "fold (\<lambda>page prev. setProcessing (id_p page) prev) ord ps =
     map (\<lambda>q. if id_p q \<in> id_p ` set ord then q\<lparr>status := PROCESSING\<rparr> else q) ps"
proof (induction ord arbitrary: ps)
  case Nil
  then show ?case by simp
next
  case (Cons a ord)
  show ?case
    by (simp add: Cons.IH) (auto simp: setProcessing_def)
qed

lemma fold_settle:
  "distinct (map id_p ord) \<Longrightarrow>
   fold (\<lambda>page. settle (id_p page) (ocr page)) ord ps =
     map (\<lambda>q. case find (\<lambda>p. id_p p = id_p q) ord of None \<Rightarrow> q | Some p \<Rightarrow> finish (ocr p) q) ps"
proof (induction ord arbitrary: ps)
  case Nil
  then show ?case by simp
next
  case (Cons a ord)
  have none: "find (\<lambda>p. id_p p = id_p a) ord = None"
  proof -
    from Cons.prems have "id_p a \<notin> id_p ` set ord" by simp
    then have "\<forall>x\<in>set ord. id_p x \<noteq> id_p a" by (metis imageI)
    then show ?thesis by (simp add: find_None_iff)
  qed
  from Cons.prems have d: "distinct (map id_p ord)" by simp
  have "fold (\<lambda>page. settle (id_p page) (ocr page)) (a # ord) ps =
      fold (\<lambda>page. settle (id_p page) (ocr page)) ord (settle (id_p a) (ocr a) ps)"
    by simp
  also have "\<dots> = map (\<lambda>q. case find (\<lambda>p. id_p p = id_p q) ord of None \<Rightarrow> q
                             | Some p \<Rightarrow> finish (ocr p) q) (settle (id_p a) (ocr a) ps)"
    by (rule Cons.IH [OF d])
  also have "\<dots> = map (\<lambda>q. case find (\<lambda>p. id_p p = id_p q) (a # ord) of None \<Rightarrow> q
                             | Some p \<Rightarrow> finish (ocr p) q) ps"
    unfolding settle_map map_map
    by (rule map_cong [OF refl]) (auto simp: none)
  finally show ?case .
qed

lemma pages_fold_batchOcrDone:
  "pages (fold (\<lambda>page. batchOcrDone (id_p page) (ocr page)) ord s) =
     fold (\<lambda>page. settle (id_p page) (ocr page)) ord (pages s)"
  by (induction ord arbitrary: s) (simp_all add: batchOcrDone_def)

lemma same_id_same_page:
  "distinct (map id_p ps) \<Longrightarrow> p \<in> set ps \<Longrightarrow> q \<in> set ps \<Longrightarrow> id_p p = id_p q \<Longrightarrow> p = q"
  by (meson distinct_map inj_onD)

lemma find_in_order:
  assumes "distinct (map id_p ps)" and "set ord \<subseteq> set ps" and "q \<in> set ps"
  shows "find (\<lambda>p. id_p p = id_p q) ord = (if q \<in> set ord then Some q else None)"
proof (cases "q \<in> set ord")
  case True
  then obtain p where "find (\<lambda>p. id_p p = id_p q) ord = Some p"
    by (cases "find (\<lambda>p. id_p p = id_p q) ord") (auto simp: find_None_iff)
  moreover from this have "p \<in> set ord" "id_p p = id_p q"
    by (auto simp: find_Some_iff)
  ultimately show ?thesis using assms True same_id_same_page [of ps p q] by auto
next
  case False
  have "find (\<lambda>p. id_p p = id_p q) ord = None"
  proof (rule ccontr)
    assume "find (\<lambda>p. id_p p = id_p q) ord \<noteq> None"
    then obtain p where "find (\<lambda>p. id_p p = id_p q) ord = Some p" by auto
    then have "p \<in> set ord" "id_p p = id_p q" by (auto simp: find_Some_iff)
    with assms have "p = q" using same_id_same_page [of ps p q] by auto
    with \<open>p \<in> set ord\<close> False show False by simp
  qed
  with False show ?thesis by simp
qed

lemma id_in_dispatched:
  assumes "distinct (map id_p (pages st))" and "q \<in> set (pages st)"
  shows "id_p q \<in> id_p ` set (dispatched st) \<longleftrightarrow> id_p q \<in> selectedPages st \<and> processable q"
proof
  assume "id_p q \<in> id_p ` set (dispatched st)"
  then obtain p where p: "p \<in> set (dispatched st)" "id_p p = id_p q" by auto
  then have "p \<in> set (pages st)" by (simp add: dispatched_def pagesToProcess_def)
  with assms p have "p = q" using same_id_same_page by blast
  with p show "id_p q \<in> selectedPages st \<and> processable q"
    by (simp add: dispatched_def pagesToProcess_def)
next
  assume "id_p q \<in> selectedPages st \<and> processable q"
  with assms(2) have "q \<in> set (dispatched st)" by (simp add: dispatched_def pagesToProcess_def)
  then show "id_p q \<in> id_p ` set (dispatched st)" by blast
qed

lemma pages_start:
  assumes "distinct (map id_p (pages st))"
  shows "pages (processSelectedPages_start st) =
     map (\<lambda>p. if id_p p \<in> selectedPages st \<and> processable p then p\<lparr>status := PROCESSING\<rparr> else p)
       (pages st)"
proof (cases "selectedPages st = {}")
  case True
  then show ?thesis by (simp add: processSelectedPages_start_def)
next
  case False
  then have "pages (processSelectedPages_start st) =
      map (\<lambda>q. if id_p q \<in> id_p ` set (dispatched st) then q\<lparr>status := PROCESSING\<rparr> else q) (pages st)"
    by (simp add: processSelectedPages_start_def fold_setProcessing)
  also have "\<dots> = map (\<lambda>p. if id_p p \<in> selectedPages st \<and> processable p
                          then p\<lparr>status := PROCESSING\<rparr> else p) (pages st)"
    using id_in_dispatched [OF assms] by (intro map_cong) auto
  finally show ?thesis .
qed


lemma pages_run:
  assumes "distinct (map id_p (pages st))" and "distinct order"
    and "set order = set (dispatched st)"
  shows "pages (processSelectedPages ocr order st) =
           map (\<lambda>p. if id_p p \<in> selectedPages st \<and> processable p
                    then finish (ocr p) (p\<lparr>status := PROCESSING\<rparr>) else p) (pages st)"
proof (cases "selectedPages st = {}")
  case True
  then show ?thesis by (simp add: processSelectedPages_def)
next
  case False
  have sub: "set order \<subseteq> set (pages st)"
    using assms(3) by (auto simp: dispatched_def pagesToProcess_def)
  have inj: "inj_on id_p (set order)"
    using assms(1) sub by (meson distinct_map inj_on_subset)
  have dord: "distinct (map id_p order)"
    using assms(2) inj by (simp add: distinct_map)
  have "pages (processSelectedPages ocr order st) =
      fold (\<lambda>page. settle (id_p page) (ocr page)) order (pages (processSelectedPages_start st))"
    using False by (simp add: processSelectedPages_def batchDone_def pages_fold_batchOcrDone)
  also have "\<dots> = map (\<lambda>q. case find (\<lambda>p. id_p p = id_p q) order of None \<Rightarrow> q
                             | Some p \<Rightarrow> finish (ocr p) q)
                     (pages (processSelectedPages_start st))"
    by (rule fold_settle [OF dord])
  also have "\<dots> = map (\<lambda>p. if id_p p \<in> selectedPages st \<and> processable p
                    then finish (ocr p) (p\<lparr>status := PROCESSING\<rparr>) else p) (pages st)"
    unfolding pages_start [OF assms(1)] map_map
  proof (rule map_cong [OF refl])
    fix q assume q: "q \<in> set (pages st)"
    have f: "find (\<lambda>p. id_p p = id_p q) order = (if q \<in> set order then Some q else None)"
      by (rule find_in_order [OF assms(1) sub q])
    have m: "q \<in> set order \<longleftrightarrow> id_p q \<in> selectedPages st \<and> processable q"
      using q assms(3) by (auto simp: dispatched_def pagesToProcess_def)
    show "((\<lambda>q. case find (\<lambda>p. id_p p = id_p q) order of None \<Rightarrow> q
                | Some p \<Rightarrow> finish (ocr p) q) \<circ>
           (\<lambda>p. if id_p p \<in> selectedPages st \<and> processable p
                 then p\<lparr>status := PROCESSING\<rparr> else p)) q =
          (if id_p q \<in> selectedPages st \<and> processable q
           then finish (ocr q) (q\<lparr>status := PROCESSING\<rparr>) else q)"
      using f m by auto
  qed
  finally show ?thesis .
qed

lemma finish_after_mark:
  "finish outcome (p\<lparr>status := PROCESSING\<rparr>) =
     (case outcome of
        Resolved t \<Rightarrow> p\<lparr>status := COMPLETED, text_p := Some t\<rparr>
      | RejectedError m \<Rightarrow> p\<lparr>status := FAILED, error := Some m\<rparr>
      | RejectedOther \<Rightarrow> p\<lparr>status := FAILED, error := Some ''An unknown error occurred.''\<rparr>)"
  by (cases outcome) (simp_all add: finish_def)

lemma pages_retry_start:
  "find (\<lambda>p. id_p p = pageId) (pages st) = Some pg \<Longrightarrow> \<not> isProcessing st \<Longrightarrow>
   retryPageProcessing_start pageId st =
     st\<lparr>isProcessing := True, pages := setRetrying pageId (pages st),
        inflight := Some (RetryTask pageId)\<rparr>"
  by (simp add: retryPageProcessing_start_def)



section \<open>Positions in the page list\<close>

lemma findIndex_first:
  "k < length xs \<Longrightarrow> P (xs ! k) \<Longrightarrow> \<forall>j<k. \<not> P (xs ! j) \<Longrightarrow> findIndex P xs = int k"
proof (induction xs arbitrary: k)
  case Nil
  then show ?case by simp
next
  case (Cons x xs)
  show ?case
  proof (cases k)
    case 0
    with Cons.prems show ?thesis by simp
  next
    case (Suc k')
    from Cons.prems Suc have nx: "\<not> P x" by auto
    from Cons.prems Suc have "k' < length xs" "P (xs ! k')" by auto
    moreover from Cons.prems Suc have "\<forall>j<k'. \<not> P (xs ! j)" by auto
    ultimately have "findIndex P xs = int k'" by (rule Cons.IH)
    with nx Suc show ?thesis by simp
  qed
qed

lemma findIndex_own_id:
  assumes "distinct (map id_p ps)" and "k < length ps"
  shows "findIndex (\<lambda>originalPage. id_p originalPage = id_p (ps ! k)) ps = int k"
proof (rule findIndex_first [OF assms(2)])
  show "id_p (ps ! k) = id_p (ps ! k)" by simp
  show "\<forall>j<k. id_p (ps ! j) \<noteq> id_p (ps ! k)"
  proof (intro allI impI)
    fix j assume "j < k"
    then have "j < length (map id_p ps)" "k < length (map id_p ps)" "j \<noteq> k"
      using assms(2) by simp_all
    with assms(1) have "map id_p ps ! j \<noteq> map id_p ps ! k"
      using nth_eq_iff_index_eq [of "map id_p ps" j k] by blast
    with \<open>j < k\<close> assms(2) show "id_p (ps ! j) \<noteq> id_p (ps ! k)" by simp
  qed
qed

lemma filter_by_index:
  "filter P xs = map (nth xs) (filter (\<lambda>k. P (xs ! k)) [0..<length xs])"
proof -
  have "filter P (map (nth xs) [0..<length xs]) =
      map (nth xs) (filter (P \<circ> nth xs) [0..<length xs])"
    by (rule filter_map)
  then show ?thesis by (simp add: map_nth comp_def)
qed

lemma truthy_iff: "truthy t \<longleftrightarrow> t \<noteq> None \<and> t \<noteq> Some []"
  by (cases t) (simp_all add: truthy_def)

section \<open>The invariant holds in every reachable state\<close>

lemma wellFormed_initial: "wellFormed initialState"
  by (simp add: wellFormed_def initialState_def awaited_def)

lemma wellFormed_text:
  "wellFormed st \<Longrightarrow> p \<in> set (pages st) \<Longrightarrow> (text_p p \<noteq> None) = (status p = COMPLETED)"
  by (simp add: wellFormed_def)

lemma wellFormed_pending:
  "wellFormed st \<Longrightarrow> p \<in> set (pages st) \<Longrightarrow> status p = PENDING \<Longrightarrow> error p = None"
  by (simp add: wellFormed_def)

lemma wellFormed_processing:
  "wellFormed st \<Longrightarrow> p \<in> set (pages st) \<Longrightarrow> (status p = PROCESSING) = (id_p p \<in> awaited st)"
  by (simp add: wellFormed_def)

lemma newPagesFrom_fresh:
  "p \<in> set (newPagesFrom i rs) \<Longrightarrow> status p = PENDING \<and> text_p p = None \<and> error p = None"
  by (induction i rs rule: newPagesFrom.induct) (auto simp: newPage_def)

lemma wellFormed_handlePdfFile:
  assumes "wellFormed st" and "uploadVisible st" and "freshIds outcome"
  shows "wellFormed (handlePdfFile pdfFile outcome st)"
proof -
  from assms(1,2) have none: "inflight st = None"
    by (simp add: wellFormed_def uploadVisible_def)
  show ?thesis
  proof (cases "\<exists>f. pdfFile = Some f \<and> ftype f = ''application/pdf''")
    case False
    then have "handlePdfFile pdfFile outcome st = st\<lparr>alerts := alerts st @ [invalidPdfAlert]\<rparr>"
      by (cases pdfFile) (auto simp: handlePdfFile_def)
    with assms(1) show ?thesis by (simp add: wellFormed_def awaited_def)
  next
    case True
    then obtain f where f: "pdfFile = Some f" "ftype f = ''application/pdf''" by blast
    show ?thesis
    proof (cases outcome)
      case DecodeError
      with f assms(1,2) none show ?thesis
        by (simp add: handlePdfFile_def wellFormed_def awaited_def uploadVisible_def)
    next
      case (Decoded rs)
      with assms(3) have "distinct (map id_p (newPages rs))" by (simp add: freshIds_def)
      with f Decoded assms(1,2) none show ?thesis
        using newPagesFrom_fresh [of _ 0 rs]
        by (auto simp: handlePdfFile_def wellFormed_def awaited_def uploadVisible_def newPages_def)
    qed
  qed
qed

lemma wellFormed_handleDrop:
  assumes "wellFormed st" and "uploadVisible st" and "freshIds outcome"
  shows "wellFormed (handleDrop files outcome st)"
proof -
  let ?st1 = "st\<lparr>isDragging := False\<rparr>"
  from assms(1) have w: "wellFormed ?st1" by (simp add: wellFormed_def awaited_def)
  from assms(2) have u: "uploadVisible ?st1" by (simp add: uploadVisible_def)
  show ?thesis
  proof (cases files)
    case Nil
    with w show ?thesis by (simp add: handleDrop_def)
  next
    case (Cons f fs)
    with wellFormed_handlePdfFile [OF w u assms(3)] show ?thesis by (simp add: handleDrop_def)
  qed
qed

lemma wellFormed_selection:
  "wellFormed st \<Longrightarrow> wellFormed (st\<lparr>selectedPages := sel\<rparr>)"
  by (simp add: wellFormed_def awaited_def)

lemma map_id_p_keep: "(\<And>p. id_p (f p) = id_p p) \<Longrightarrow> map id_p (map f ps) = map id_p ps"
  by (induction ps) simp_all

lemma wellFormed_start:
  assumes w: "wellFormed st" and idle: "\<not> isProcessing st"
  shows "wellFormed (processSelectedPages_start st)"
proof (cases "selectedPages st = {}")
  case True
  with w show ?thesis by (simp add: processSelectedPages_start_def)
next
  case False
  from w have ids: "distinct (map id_p (pages st))" by (simp add: wellFormed_def)
  from w idle have none: "inflight st = None" by (simp add: wellFormed_def)
  with w have quiet: "\<forall>p\<in>set (pages st). status p \<noteq> PROCESSING"
    by (simp add: wellFormed_def awaited_def)
  let ?mark = "\<lambda>p. if id_p p \<in> selectedPages st \<and> processable p
                     then p\<lparr>status := PROCESSING\<rparr> else p"
  let ?st' = "processSelectedPages_start st"
  have pg: "pages ?st' = map ?mark (pages st)" by (rule pages_start [OF ids])
  have fl: "inflight ?st' = Some (BatchTask (map id_p (dispatched st)))"
    "isProcessing ?st'" "isPdfLoading ?st' = isPdfLoading st"
    using False by (simp_all add: processSelectedPages_start_def)
  have aw: "awaited ?st' = id_p ` set (dispatched st)"
    by (simp add: awaited_def fl)
  have i1: "distinct (map id_p (pages ?st'))"
  proof -
    have m: "map id_p (map ?mark (pages st)) = map id_p (pages st)"
      by (rule map_id_p_keep) simp
    show ?thesis unfolding pg m by (rule ids)
  qed
  have i2: "distinct (map id_p (dispatched st))"
    using ids by (simp add: dispatched_def pagesToProcess_def distinct_map_filter)
  have i3: "\<forall>p\<in>set (pages ?st'). (status p = PROCESSING) = (id_p p \<in> awaited ?st')"
    unfolding pg aw
  proof (intro ballI)
    fix p' assume "p' \<in> set (map ?mark (pages st))"
    then obtain p where p: "p \<in> set (pages st)" "p' = ?mark p" by auto
    from id_in_dispatched [OF ids p(1)] quiet p
    show "(status p' = PROCESSING) = (id_p p' \<in> id_p ` set (dispatched st))"
      by auto
  qed
  have i4: "\<forall>p\<in>set (pages ?st'). (text_p p \<noteq> None) = (status p = COMPLETED)"
    unfolding pg using w by (auto simp: wellFormed_def processable_def)
  have i5: "\<forall>p\<in>set (pages ?st'). status p = PENDING \<longrightarrow> error p = None"
    unfolding pg using w by (auto simp: wellFormed_def)
  from w i1 i2 i3 i4 i5 fl show ?thesis
    by (simp add: wellFormed_def)
qed


lemma setRetrying_map:
  "setRetrying i ps = map (\<lambda>p. if id_p p = i then p\<lparr>status := PROCESSING, error := None\<rparr> else p) ps"
  by (simp add: setRetrying_def)

lemma status_finish [simp]:
  "status (finish out q) \<noteq> PROCESSING" "status (finish out q) \<noteq> PENDING"
  by (cases out; simp add: finish_def)+

lemma text_finish:
  "text_p q = None \<Longrightarrow> (text_p (finish out q) \<noteq> None) = (status (finish out q) = COMPLETED)"
  by (cases out) (simp_all add: finish_def)

lemma failed_page_by_id:
  assumes "distinct (map id_p ps)" and "list_ex (\<lambda>p. id_p p = i \<and> status p = FAILED) ps"
    and "q \<in> set ps" and "id_p q = i"
  shows "status q = FAILED"
proof -
  from assms(2) obtain p where p: "p \<in> set ps" "id_p p = i" "status p = FAILED"
    by (auto simp: list_ex_iff)
  with assms have "p = q" using same_id_same_page [of ps p q] by simp
  with p show ?thesis by simp
qed

lemma wellFormed_retry_start:
  assumes w: "wellFormed st"
    and en: "list_ex (\<lambda>p. id_p p = i \<and> status p = FAILED) (pages st)"
  shows "wellFormed (retryPageProcessing_start i st)"
proof (cases "isProcessing st \<or> find (\<lambda>p. id_p p = i) (pages st) = None")
  case True
  then have "retryPageProcessing_start i st = st"
    by (auto simp: retryPageProcessing_start_def split: option.splits)
  with w show ?thesis by simp
next
  case False
  then obtain pg where pg: "find (\<lambda>p. id_p p = i) (pages st) = Some pg" and idle: "\<not> isProcessing st"
    by auto
  from w have ids: "distinct (map id_p (pages st))" by (simp add: wellFormed_def)
  from w idle have none: "inflight st = None" by (simp add: wellFormed_def)
  with w have quiet: "\<forall>p\<in>set (pages st). status p \<noteq> PROCESSING"
    by (simp add: wellFormed_def awaited_def)
  let ?mark = "\<lambda>p. if id_p p = i then p\<lparr>status := PROCESSING, error := None\<rparr> else p"
  let ?st' = "st\<lparr>isProcessing := True, pages := map ?mark (pages st),
                 inflight := Some (RetryTask i)\<rparr>"
  have eq: "retryPageProcessing_start i st = ?st'"
    by (simp add: pages_retry_start [OF pg idle] setRetrying_map)
  have m: "map id_p (map ?mark (pages st)) = map id_p (pages st)"
    by (rule map_id_p_keep) simp
  have pg': "pages ?st' = map ?mark (pages st)" by simp
  have i1: "distinct (map id_p (pages ?st'))"
    unfolding pg' m by (rule ids)
  have i3: "\<forall>p\<in>set (pages ?st'). (status p = PROCESSING) = (id_p p \<in> awaited ?st')"
    using quiet by (auto simp: awaited_def)
  have failed: "\<forall>q\<in>set (pages st). id_p q = i \<longrightarrow> status q = FAILED"
    using failed_page_by_id [OF ids en] by blast
  have i4: "\<forall>p\<in>set (pages ?st'). (text_p p \<noteq> None) = (status p = COMPLETED)"
    using w failed by (auto simp: wellFormed_def)
  have i5: "\<forall>p\<in>set (pages ?st'). status p = PENDING \<longrightarrow> error p = None"
    using w by (auto simp: wellFormed_def)
  from w i1 i3 i4 i5 show ?thesis
    unfolding eq by (simp add: wellFormed_def)
qed

lemma wellFormed_batchOcrDone:
  assumes w: "wellFormed st" and fl: "inflight st = Some (BatchTask ids)" and i: "i \<in> set ids"
  shows "wellFormed (batchOcrDone i out st)"
proof -
  from w have ids: "distinct (map id_p (pages st))" by (simp add: wellFormed_def)
  from w fl have d: "distinct ids" by (simp add: wellFormed_def)
  from w fl have proc: "\<forall>p\<in>set (pages st). (status p = PROCESSING) = (id_p p \<in> set ids)"
    by (simp add: wellFormed_def awaited_def)
  let ?fin = "\<lambda>q. if id_p q = i then finish out q else q"
  let ?st' = "st\<lparr>pages := map ?fin (pages st), inflight := Some (BatchTask (remove1 i ids))\<rparr>"
  have eq: "batchOcrDone i out st = ?st'"
    by (simp add: batchOcrDone_def fl settle_map)
  have m: "map id_p (map ?fin (pages st)) = map id_p (pages st)"
    by (rule map_id_p_keep) simp
  have pg': "pages ?st' = map ?fin (pages st)" by simp
  have i1: "distinct (map id_p (pages ?st'))"
    unfolding pg' m by (rule ids)
  have aw: "awaited ?st' = set ids - {i}"
    using d by (simp add: awaited_def)
  have i3: "\<forall>p\<in>set (pages ?st'). (status p = PROCESSING) = (id_p p \<in> awaited ?st')"
    unfolding aw using proc by (auto simp: image_iff)
  have tn: "text_p q = None" if "q \<in> set (pages st)" "id_p q = i" for q
  proof -
    from that proc i have "status q = PROCESSING" by simp
    with wellFormed_text [OF w that(1)] show ?thesis by simp
  qed
  have i4: "\<forall>p\<in>set (pages ?st'). (text_p p \<noteq> None) = (status p = COMPLETED)"
    unfolding pg'
  proof (intro ballI)
    fix p' assume "p' \<in> set (map ?fin (pages st))"
    then obtain q where q: "q \<in> set (pages st)" "p' = ?fin q" by auto
    show "(text_p p' \<noteq> None) = (status p' = COMPLETED)"
    proof (cases "id_p q = i")
      case True
      with q tn [OF q(1)] text_finish [of q out] show ?thesis by simp
    next
      case False
      with q wellFormed_text [OF w q(1)] show ?thesis by simp
    qed
  qed
  have i5: "\<forall>p\<in>set (pages ?st'). status p = PENDING \<longrightarrow> error p = None"
    unfolding pg' using wellFormed_pending [OF w] by auto
  from w fl d i1 i3 i4 i5 show ?thesis
    unfolding eq by (simp add: wellFormed_def)
qed

lemma wellFormed_batchDone:
  assumes w: "wellFormed st" and fl: "inflight st = Some (BatchTask [])"
  shows "wellFormed (batchDone st)"
  using w fl by (simp add: wellFormed_def awaited_def batchDone_def)

lemma wellFormed_retryOcrDone:
  assumes w: "wellFormed st" and fl: "inflight st = Some (RetryTask i)"
  shows "wellFormed (retryOcrDone i out st)"
proof -
  from w have ids: "distinct (map id_p (pages st))" by (simp add: wellFormed_def)
  from w fl have proc: "\<forall>p\<in>set (pages st). (status p = PROCESSING) = (id_p p = i)"
    by (simp add: wellFormed_def awaited_def)
  let ?fin = "\<lambda>q. if id_p q = i then finish out q else q"
  let ?st' = "st\<lparr>pages := map ?fin (pages st), isProcessing := False, inflight := None\<rparr>"
  have eq: "retryOcrDone i out st = ?st'"
    by (simp add: retryOcrDone_def settle_map)
  have m: "map id_p (map ?fin (pages st)) = map id_p (pages st)"
    by (rule map_id_p_keep) simp
  have pg': "pages ?st' = map ?fin (pages st)" by simp
  have i1: "distinct (map id_p (pages ?st'))"
    unfolding pg' m by (rule ids)
  have i3: "\<forall>p\<in>set (pages ?st'). (status p = PROCESSING) = (id_p p \<in> awaited ?st')"
    using proc by (auto simp: awaited_def)
  have tn: "text_p q = None" if "q \<in> set (pages st)" "id_p q = i" for q
  proof -
    from that proc have "status q = PROCESSING" by simp
    with wellFormed_text [OF w that(1)] show ?thesis by simp
  qed
  have i4: "\<forall>p\<in>set (pages ?st'). (text_p p \<noteq> None) = (status p = COMPLETED)"
    unfolding pg'
  proof (intro ballI)
    fix p' assume "p' \<in> set (map ?fin (pages st))"
    then obtain q where q: "q \<in> set (pages st)" "p' = ?fin q" by auto
    show "(text_p p' \<noteq> None) = (status p' = COMPLETED)"
    proof (cases "id_p q = i")
      case True
      with q tn [OF q(1)] text_finish [of q out] show ?thesis by simp
    next
      case False
      with q wellFormed_text [OF w q(1)] show ?thesis by simp
    qed
  qed
  have i5: "\<forall>p\<in>set (pages ?st'). status p = PENDING \<longrightarrow> error p = None"
    unfolding pg' using wellFormed_pending [OF w] by auto
  from w i1 i3 i4 i5 show ?thesis
    unfolding eq by (simp add: wellFormed_def)
qed

lemma wellFormed_other:
  "wellFormed st \<Longrightarrow> wellFormed (st\<lparr>isDragging := b\<rparr>)"
  "wellFormed st \<Longrightarrow> wellFormed (st\<lparr>copySuccess := s\<rparr>)"
  by (simp_all add: wellFormed_def awaited_def)

lemma wellFormed_fire:
  assumes w: "wellFormed st" and en: "enabled st e"
  shows "wellFormed (fire e st)"
proof (cases e)
  case (Upload pdfFile outcome)
  with w en show ?thesis by (simp add: wellFormed_handlePdfFile)
next
  case (Drop files outcome)
  with w en show ?thesis by (simp add: wellFormed_handleDrop)
next
  case (Drag ty)
  with w show ?thesis by (simp add: handleDragEvents_def wellFormed_other)
next
  case (Toggle pageId)
  with w show ?thesis by (simp add: handleToggleSelectPage_def wellFormed_selection)
next
  case SelectAll
  with w show ?thesis by (simp add: handleSelectAll_def wellFormed_selection)
next
  case ProcessSelected
  with w en show ?thesis by (simp add: wellFormed_start)
next
  case (RetryClick pageId)
  with w en show ?thesis by (simp add: wellFormed_retry_start)
next
  case (BatchOcrSettled pageId outcome)
  with en obtain ids where "inflight st = Some (BatchTask ids)" "pageId \<in> set ids"
    by (auto split: option.splits Task.splits)
  with w BatchOcrSettled show ?thesis by (simp add: wellFormed_batchOcrDone)
next
  case BatchSettled
  with w en show ?thesis by (simp add: wellFormed_batchDone)
next
  case (RetryOcrSettled outcome)
  with en obtain i where "inflight st = Some (RetryTask i)"
    by (auto split: option.splits Task.splits)
  with w RetryOcrSettled show ?thesis by (simp add: wellFormed_retryOcrDone)
next
  case (CopyNote s)
  with w show ?thesis by (simp add: wellFormed_other)
qed

lemma wellFormed_run:
  "wellFormed st \<Longrightarrow> run evs st = Some st' \<Longrightarrow> wellFormed st'"
proof (induction evs arbitrary: st)
  case Nil
  then show ?case by simp
next
  case (Cons e evs)
  from Cons.prems(2) have en: "enabled st e" and r: "run evs (fire e st) = Some st'"
    by (auto split: if_splits)
  from Cons.prems(1) en have "wellFormed (fire e st)" by (rule wellFormed_fire)
  then show ?case using r by (rule Cons.IH)
qed

lemma reachable_wellFormed: "run evs initialState = Some st \<Longrightarrow> wellFormed st"
  using wellFormed_initial by (rule wellFormed_run)

section \<open>Status changes of one event\<close>

lemma allowedTransition_refl [simp]: "allowedTransition a a"
  by (simp add: allowedTransition_def)

lemma status_finish_cases:
  "status (finish out q) = COMPLETED \<or> status (finish out q) = FAILED"
  by (cases out) (simp_all add: finish_def)

lemma transitions_same:
  "list_all2 (\<lambda>p p'. id_p p' = id_p p \<and> allowedTransition (status p) (status p')) ps ps"
  by (simp add: list_all2_same)

lemma transitions_map:
  assumes "\<And>p. p \<in> set ps \<Longrightarrow> id_p (f p) = id_p p \<and> allowedTransition (status p) (status (f p))"
  shows "list_all2 (\<lambda>p p'. id_p p' = id_p p \<and> allowedTransition (status p) (status p')) ps
           (map f ps)"
  using assms by (simp add: list_all2_map2 list_all2_same)

lemma transitions_start:
  assumes w: "wellFormed st"
  shows "list_all2 (\<lambda>p p'. id_p p' = id_p p \<and> allowedTransition (status p) (status p'))
           (pages st) (pages (processSelectedPages_start st))"
proof -
  from w have ids: "distinct (map id_p (pages st))" by (simp add: wellFormed_def)
  show ?thesis
    unfolding pages_start [OF ids]
    by (rule transitions_map) (auto simp: processable_def allowedTransition_def)
qed

lemma transitions_retry_start:
  assumes w: "wellFormed st"
    and en: "list_ex (\<lambda>p. id_p p = i \<and> status p = FAILED) (pages st)"
  shows "list_all2 (\<lambda>p p'. id_p p' = id_p p \<and> allowedTransition (status p) (status p'))
           (pages st) (pages (retryPageProcessing_start i st))"
proof (cases "isProcessing st \<or> find (\<lambda>p. id_p p = i) (pages st) = None")
  case True
  then have "retryPageProcessing_start i st = st"
    by (auto simp: retryPageProcessing_start_def split: option.splits)
  then show ?thesis by (simp add: transitions_same)
next
  case False
  then obtain pg where pg: "find (\<lambda>p. id_p p = i) (pages st) = Some pg" and idle: "\<not> isProcessing st"
    by auto
  from w have ids: "distinct (map id_p (pages st))" by (simp add: wellFormed_def)
  have failed: "status q = FAILED" if "q \<in> set (pages st)" "id_p q = i" for q
    using failed_page_by_id [OF ids en that] .
  have eq: "pages (retryPageProcessing_start i st) =
      map (\<lambda>p. if id_p p = i then p\<lparr>status := PROCESSING, error := None\<rparr> else p) (pages st)"
    by (simp add: pages_retry_start [OF pg idle] setRetrying_map)
  show ?thesis
    unfolding eq
    by (rule transitions_map) (auto simp: allowedTransition_def failed)
qed

lemma transitions_settle:
  assumes proc: "\<And>q. q \<in> set ps \<Longrightarrow> id_p q = i \<Longrightarrow> status q = PROCESSING"
  shows "list_all2 (\<lambda>p p'. id_p p' = id_p p \<and> allowedTransition (status p) (status p')) ps
           (settle i out ps)"
  unfolding settle_map
proof (rule transitions_map)
  fix p assume p: "p \<in> set ps"
  show "id_p (if id_p p = i then finish out p else p) = id_p p \<and>
        allowedTransition (status p) (status (if id_p p = i then finish out p else p))"
    using proc [OF p] status_finish_cases [of out p] by (auto simp: allowedTransition_def)
qed

lemma fresh_after_upload:
  assumes "uploadVisible st"
  shows "list_all (\<lambda>p. status p = PENDING) (pages (handlePdfFile pdfFile outcome st))"
proof -
  from assms have e: "pages st = []" by (simp add: uploadVisible_def)
  have n: "list_all (\<lambda>p. status p = PENDING) (newPages rs)" for rs
    using newPagesFrom_fresh [of _ 0 rs] by (simp add: list_all_iff newPages_def)
  show ?thesis
    using e n by (cases pdfFile; cases outcome) (simp_all add: handlePdfFile_def)
qed

section \<open>Batch dispatch with nothing selected\<close>

text \<open>
  C10: batch dispatch with an empty selection returns at line 97. The synchronous part
  leaves the whole state as it is (pages, selection, the flag isProcessing, no operation
  in flight), and so does the operation run to its end, whatever the OCR service would
  answer.
\<close>

theorem empty_selection_noop:
  "selectedPages st = {} \<Longrightarrow>
   processSelectedPages_start st = st \<and> processSelectedPages ocr order st = st"
  by (simp add: processSelectedPages_start_def processSelectedPages_def)

theorem empty_selection_noop_witness:
  "selectedPages (sampleState fourPages {}) = {} \<and>
   processSelectedPages_start (sampleState fourPages {}) = sampleState fourPages {} \<and>
   processSelectedPages sampleOcr fourPages (sampleState fourPages {}) = sampleState fourPages {}"
proof -
  have h: "selectedPages (sampleState fourPages {}) = {}"
    by (simp add: sampleState_def)
  show ?thesis
    using h empty_selection_noop [OF h, of sampleOcr fourPages] by simp
qed

section \<open>A failed decoding\<close>

text \<open>
  C8: when a PDF file is given and its decoding fails, the upload ends with the alert of
  line 70 and with nothing kept: the page list and the selection are empty, and the
  loading flag is down again.
\<close>

theorem decode_failure_resets:
  "ftype f = ''application/pdf'' \<Longrightarrow>
   pages (handlePdfFile (Some f) DecodeError st) = [] \<and>
   selectedPages (handlePdfFile (Some f) DecodeError st) = {} \<and>
   alerts (handlePdfFile (Some f) DecodeError st) = alerts st @ [pdfErrorAlert] \<and>
   \<not> isPdfLoading (handlePdfFile (Some f) DecodeError st)"
  by (simp add: handlePdfFile_def)

theorem decode_failure_resets_witness:
  "ftype samplePdf = ''application/pdf'' \<and>
   pages (handlePdfFile (Some samplePdf) DecodeError (sampleState fourPages {''a''})) = [] \<and>
   selectedPages (handlePdfFile (Some samplePdf) DecodeError (sampleState fourPages {''a''})) = {} \<and>
   alerts (handlePdfFile (Some samplePdf) DecodeError (sampleState fourPages {''a''})) =
     [pdfErrorAlert]"
proof -
  have h: "ftype samplePdf = ''application/pdf''"
    by (simp add: samplePdf_def)
  show ?thesis
    using h decode_failure_resets [OF h, of "sampleState fourPages {''a''}"]
    by (simp add: sampleState_def initialState_def)
qed

section \<open>Select all\<close>

text \<open>
  C9, as amended: from a state with at least one processable page in which not every
  processable page is selected yet, select-all makes the selection exactly the set of
  processable identifiers, and a second select-all empties it.
\<close>

theorem select_all_twice:
  assumes "processablePageIds st \<noteq> []" and "\<not> allProcessableSelected st"
  shows "selectedPages (handleSelectAll st) = set (processablePageIds st) \<and>
         selectedPages (handleSelectAll (handleSelectAll st)) = {}"
proof -
  let ?st1 = "st\<lparr>selectedPages := set (processablePageIds st)\<rparr>"
  have one: "handleSelectAll st = ?st1"
    using assms(2) by (simp add: handleSelectAll_def)
  have ids: "processablePageIds ?st1 = processablePageIds st"
    by (simp add: processablePageIds_def)
  have "allProcessableSelected ?st1"
    using assms(1) by (simp add: allProcessableSelected_def ids list_all_iff)
  then have "selectedPages (handleSelectAll ?st1) = {}"
    by (simp add: handleSelectAll_def)
  with one show ?thesis by simp
qed

theorem select_all_twice_witness:
  "processablePageIds (sampleState fourPages {''a''}) \<noteq> [] \<and>
   \<not> allProcessableSelected (sampleState fourPages {''a''}) \<and>
   selectedPages (handleSelectAll (sampleState fourPages {''a''})) = {''a'', ''b'', ''d''} \<and>
   selectedPages (handleSelectAll (handleSelectAll (sampleState fourPages {''a''}))) = {}"
proof -
  have h1: "processablePageIds (sampleState fourPages {''a''}) \<noteq> []"
    by (simp add: sample_defs processablePageIds_def processable_def)
  have h2: "\<not> allProcessableSelected (sampleState fourPages {''a''})"
    by (simp add: sample_defs allProcessableSelected_def processablePageIds_def processable_def)
  have ids: "set (processablePageIds (sampleState fourPages {''a''})) = {''a'', ''b'', ''d''}"
    by (simp add: sample_defs processablePageIds_def processable_def)
  show ?thesis
    using h1 h2 select_all_twice [OF h1 h2] by (simp add: ids)
qed

text \<open>
  The claim as it is worded fails where every processable page is already selected: the
  first select-all then empties the selection.
\<close>

theorem select_all_counterexample:
  "processablePageIds (sampleState fourPages {''a'', ''b'', ''d''}) \<noteq> [] \<and>
   selectedPages (handleSelectAll (sampleState fourPages {''a'', ''b'', ''d''})) = {} \<and>
   selectedPages (handleSelectAll (sampleState fourPages {''a'', ''b'', ''d''})) \<noteq>
     set (processablePageIds (sampleState fourPages {''a'', ''b'', ''d''}))"
  by (simp add: sample_defs handleSelectAll_def allProcessableSelected_def
        processablePageIds_def processable_def)

section \<open>Batch dispatch\<close>

text \<open>
  C3: with unique page identifiers, batch dispatch processes a selected page exactly when
  its status is PENDING or FAILED. Right after the synchronous part every such page is
  PROCESSING and every other page is as before. When all calls have settled, in whatever
  order, every such page is COMPLETED with the returned text when its call resolved, and
  FAILED with the error message when it rejected; every other page, so also a selected
  page that was PROCESSING or COMPLETED, is unchanged.
\<close>

theorem batch_dispatch_pages:
  assumes "distinct (map id_p (pages st))" and "distinct order"
    and "set order = set (dispatched st)"
  shows "pages (processSelectedPages_start st) =
           map (\<lambda>p. if id_p p \<in> selectedPages st \<and> (status p = PENDING \<or> status p = FAILED)
                    then p\<lparr>status := PROCESSING\<rparr> else p) (pages st) \<and>
         pages (processSelectedPages ocr order st) =
           map (\<lambda>p. if id_p p \<in> selectedPages st \<and> (status p = PENDING \<or> status p = FAILED)
                    then (case ocr p of
                            Resolved t \<Rightarrow> p\<lparr>status := COMPLETED, text_p := Some t\<rparr>
                          | RejectedError m \<Rightarrow> p\<lparr>status := FAILED, error := Some m\<rparr>
                          | RejectedOther \<Rightarrow>
                              p\<lparr>status := FAILED, error := Some ''An unknown error occurred.''\<rparr>)
                    else p) (pages st)"
  using pages_start [OF assms(1)] pages_run [OF assms, of ocr]
  unfolding finish_after_mark processable_def by blast

theorem batch_dispatch_pages_witness:
  "distinct (map id_p (pages (sampleState fourPages {''a'', ''b'', ''c''}))) \<and>
   distinct [samplePage ''b'' FAILED None (Some ''boom''), samplePage ''a'' PENDING None None] \<and>
   set [samplePage ''b'' FAILED None (Some ''boom''), samplePage ''a'' PENDING None None] =
     set (dispatched (sampleState fourPages {''a'', ''b'', ''c''})) \<and>
   pages (processSelectedPages_start (sampleState fourPages {''a'', ''b'', ''c''})) =
     [samplePage ''a'' PROCESSING None None, samplePage ''b'' PROCESSING None (Some ''boom''),
      samplePage ''c'' COMPLETED (Some ''old'') None, samplePage ''d'' PENDING None None] \<and>
   pages (processSelectedPages sampleOcr
            [samplePage ''b'' FAILED None (Some ''boom''), samplePage ''a'' PENDING None None]
            (sampleState fourPages {''a'', ''b'', ''c''})) =
     [samplePage ''a'' COMPLETED (Some ''new'') None, samplePage ''b'' FAILED None (Some ''net''),
      samplePage ''c'' COMPLETED (Some ''old'') None, samplePage ''d'' PENDING None None]"
proof -
  let ?st = "sampleState fourPages {''a'', ''b'', ''c''}"
  let ?order = "[samplePage ''b'' FAILED None (Some ''boom''), samplePage ''a'' PENDING None None]"
  have h1: "distinct (map id_p (pages ?st))"
    by (simp add: sample_defs)
  have h2: "distinct ?order"
    by (simp add: sample_defs)
  have h3: "set ?order = set (dispatched ?st)"
    by (auto simp: sample_defs dispatched_def pagesToProcess_def processable_def)
  show ?thesis
    using h1 h2 h3 batch_dispatch_pages [OF h1 h2 h3, of sampleOcr]
    by (simp add: sample_defs)
qed

section \<open>Retry\<close>



section \<open>Retry against batch dispatch of one page\<close>




section \<open>The combined text\<close>

text \<open>
  C7, as amended: with unique identifiers, the combined text has one entry for exactly the
  pages that are COMPLETED with a text that is not empty, in the order of the page list;
  an entry is the header with the 1-based position of the page, a blank line and the text
  of the page, and the entries are joined by a blank line. Every other page contributes
  nothing.
\<close>

theorem combined_text_entries:
  assumes "distinct (map id_p ps)"
  shows "combinedText ps =
     joinStr newlines
       (map (\<lambda>k. ''--- '' @ pageWord @ '' '' @ showNat (k + 1) @ '' ---'' @ newlines @
                 the (text_p (ps ! k)))
          (filter (\<lambda>k. status (ps ! k) = COMPLETED \<and> text_p (ps ! k) \<noteq> None \<and>
                       text_p (ps ! k) \<noteq> Some [])
             [0..<length ps]))"
proof -
  let ?keep = "\<lambda>k. status (ps ! k) = COMPLETED \<and> text_p (ps ! k) \<noteq> None \<and> text_p (ps ! k) \<noteq> Some []"
  have "map (\<lambda>p. entry (findIndex (\<lambda>originalPage. id_p originalPage = id_p p) ps + 1) (text_p p))
          (filter (\<lambda>p. status p = COMPLETED \<and> truthy (text_p p)) ps) =
        map (\<lambda>k. entry (findIndex (\<lambda>originalPage. id_p originalPage = id_p (ps ! k)) ps + 1)
                   (text_p (ps ! k)))
          (filter ?keep [0..<length ps])"
    by (subst filter_by_index) (simp add: truthy_iff comp_def)
  also have "\<dots> = map (\<lambda>k. ''--- '' @ pageWord @ '' '' @ showNat (k + 1) @ '' ---'' @ newlines @
                 the (text_p (ps ! k))) (filter ?keep [0..<length ps])"
  proof (rule map_cong [OF refl])
    fix k assume "k \<in> set (filter ?keep [0..<length ps])"
    then have k: "k < length ps" and t: "text_p (ps ! k) \<noteq> None" by auto
    from t obtain s where s: "text_p (ps ! k) = Some s" by auto
    have "showInt (int k + 1) = showNat (k + 1)"
      by (simp add: showInt_def nat_add_distrib)
    then show "entry (findIndex (\<lambda>originalPage. id_p originalPage = id_p (ps ! k)) ps + 1)
                 (text_p (ps ! k)) =
               ''--- '' @ pageWord @ '' '' @ showNat (k + 1) @ '' ---'' @ newlines @
                 the (text_p (ps ! k))"
      by (simp add: findIndex_own_id [OF assms k] entry_def s)
  qed
  finally show ?thesis by (simp add: combinedText_def)
qed

theorem combined_text_entries_witness:
  "distinct (map id_p sixPages) \<and>
   combinedText sixPages =
     ''--- '' @ pageWord @ '' 3 ---'' @ newlines @ ''old'' @ newlines @
     ''--- '' @ pageWord @ '' 6 ---'' @ newlines @ ''more''"
proof -
  have h: "distinct (map id_p sixPages)"
    by (simp add: sixPages_def sample_defs)
  have "joinStr newlines
       (map (\<lambda>k. ''--- '' @ pageWord @ '' '' @ showNat (k + 1) @ '' ---'' @ newlines @
                 the (text_p (sixPages ! k)))
          (filter (\<lambda>k. status (sixPages ! k) = COMPLETED \<and> text_p (sixPages ! k) \<noteq> None \<and>
                       text_p (sixPages ! k) \<noteq> Some [])
             [0..<length sixPages])) =
     ''--- '' @ pageWord @ '' 3 ---'' @ newlines @ ''old'' @ newlines @
     ''--- '' @ pageWord @ '' 6 ---'' @ newlines @ ''more''"
    by code_simp
  with h combined_text_entries [OF h] show ?thesis by simp
qed

text \<open>
  The claim as it is worded fails on a COMPLETED page whose text is empty: the filter of
  line 194 drops it.
\<close>

theorem combined_text_counterexample:
  "status (samplePage ''e'' COMPLETED (Some []) None) = COMPLETED \<and>
   combinedText [samplePage ''e'' COMPLETED (Some []) None] = []"
  by (simp add: combinedText_def samplePage_def truthy_def)

section \<open>The page state machine\<close>

text \<open>
  C2: in every state reached from the initial one, whatever event happens next, every
  page keeps its place and its identifier, and its status either stays or changes by one
  of PENDING to PROCESSING, PROCESSING to COMPLETED, PROCESSING to FAILED, FAILED to
  PROCESSING; so a COMPLETED page stays COMPLETED. An upload happens on an empty page
  list and leaves only PENDING pages.
\<close>

theorem only_allowed_transitions:
  assumes "run evs initialState = Some st" and "enabled st e"
  shows "if isUpload e then list_all (\<lambda>p. status p = PENDING) (pages (fire e st))
         else list_all2 (\<lambda>p p'. id_p p' = id_p p \<and> allowedTransition (status p) (status p'))
                (pages st) (pages (fire e st))"
proof -
  from assms(1) have w: "wellFormed st" by (rule reachable_wellFormed)
  show ?thesis
  proof (cases e)
    case (Upload pdfFile outcome)
    with assms(2) show ?thesis by (simp add: fresh_after_upload)
  next
    case (Drop files outcome)
    with assms(2) have u: "uploadVisible (st\<lparr>isDragging := False\<rparr>)"
      by (simp add: uploadVisible_def)
    from u have "pages st = []" by (simp add: uploadVisible_def)
    with Drop fresh_after_upload [OF u] show ?thesis
      by (cases files) (simp_all add: handleDrop_def)
  next
    case (Drag ty)
    then show ?thesis by (simp add: handleDragEvents_def transitions_same)
  next
    case (Toggle pageId)
    then show ?thesis by (simp add: handleToggleSelectPage_def transitions_same)
  next
    case SelectAll
    then show ?thesis by (simp add: handleSelectAll_def transitions_same)
  next
    case ProcessSelected
    with w show ?thesis by (simp add: transitions_start)
  next
    case (RetryClick pageId)
    with w assms(2) show ?thesis by (simp add: transitions_retry_start)
  next
    case (BatchOcrSettled pageId outcome)
    with assms(2) obtain ids where fl: "inflight st = Some (BatchTask ids)" "pageId \<in> set ids"
      by (auto split: option.splits Task.splits)
    have "status q = PROCESSING" if "q \<in> set (pages st)" "id_p q = pageId" for q
      using wellFormed_processing [OF w that(1)] that(2) fl by (simp add: awaited_def)
    then have "list_all2 (\<lambda>p p'. id_p p' = id_p p \<and> allowedTransition (status p) (status p'))
        (pages st) (settle pageId outcome (pages st))"
      by (rule transitions_settle)
    with BatchOcrSettled show ?thesis by (simp add: batchOcrDone_def)
  next
    case BatchSettled
    then show ?thesis by (simp add: batchDone_def transitions_same)
  next
    case (RetryOcrSettled outcome)
    with assms(2) obtain i where fl: "inflight st = Some (RetryTask i)"
      by (auto split: option.splits Task.splits)
    have "status q = PROCESSING" if "q \<in> set (pages st)" "id_p q = i" for q
      using wellFormed_processing [OF w that(1)] that(2) fl by (simp add: awaited_def)
    then have "list_all2 (\<lambda>p p'. id_p p' = id_p p \<and> allowedTransition (status p) (status p'))
        (pages st) (settle i outcome (pages st))"
      by (rule transitions_settle)
    with RetryOcrSettled fl show ?thesis by (simp add: retryOcrDone_def)
  next
    case (CopyNote s)
    then show ?thesis by (simp add: transitions_same)
  qed
qed

theorem only_allowed_transitions_witness:
  "run traceDispatched initialState = Some (fold fire traceDispatched initialState) \<and>
   enabled (fold fire traceDispatched initialState) (BatchOcrSettled ''a'' (RejectedError ''boom'')) \<and>
   list_all2 (\<lambda>p p'. id_p p' = id_p p \<and> allowedTransition (status p) (status p'))
     (pages (fold fire traceDispatched initialState))
     (pages (fire (BatchOcrSettled ''a'' (RejectedError ''boom''))
               (fold fire traceDispatched initialState))) \<and>
   map status (pages (fold fire traceDispatched initialState)) = [PROCESSING, PROCESSING] \<and>
   map status (pages (fire (BatchOcrSettled ''a'' (RejectedError ''boom''))
                        (fold fire traceDispatched initialState))) = [FAILED, PROCESSING] \<and>
   run [] initialState = Some initialState \<and> enabled initialState uploadTwo \<and>
   list_all (\<lambda>p. status p = PENDING) (pages (fire uploadTwo initialState)) \<and>
   map id_p (pages (fire uploadTwo initialState)) = [''a'', ''b'']"
proof -
  have h1: "run traceDispatched initialState = Some (fold fire traceDispatched initialState)"
    by code_simp
  have h2: "enabled (fold fire traceDispatched initialState)
              (BatchOcrSettled ''a'' (RejectedError ''boom''))"
    by code_simp
  have h3: "run [] initialState = Some initialState" by simp
  have h4: "enabled initialState uploadTwo" by code_simp
  have s1: "map status (pages (fold fire traceDispatched initialState)) = [PROCESSING, PROCESSING]"
    by code_simp
  have s2: "map status (pages (fire (BatchOcrSettled ''a'' (RejectedError ''boom''))
                        (fold fire traceDispatched initialState))) = [FAILED, PROCESSING]"
    by code_simp
  have s3: "map id_p (pages (fire uploadTwo initialState)) = [''a'', ''b'']"
    by code_simp
  have u: "isUpload uploadTwo" by (simp add: uploadTwo_def)
  show ?thesis
    using h1 h2 h3 h4 s1 s2 s3 u only_allowed_transitions [OF h1 h2] only_allowed_transitions [OF h3 h4]
    by simp
qed

section \<open>The end of a batch\<close>

text \<open>
  C4: in every state reached from the initial one in which a batch has all its calls
  settled, the completion of the batch (lines 124 and 125) leaves the selection empty, no
  page in PROCESSING, and isProcessing down.
\<close>

theorem batch_completion:
  assumes "run evs initialState = Some st" and "enabled st BatchSettled"
  shows "selectedPages (fire BatchSettled st) = {} \<and>
         list_all (\<lambda>p. status p \<noteq> PROCESSING) (pages (fire BatchSettled st)) \<and>
         \<not> isProcessing (fire BatchSettled st)"
proof -
  from assms(1) have w: "wellFormed st" by (rule reachable_wellFormed)
  from assms(2) have "awaited st = {}" by (simp add: awaited_def)
  with wellFormed_processing [OF w] have "\<forall>p\<in>set (pages st). status p \<noteq> PROCESSING"
    by simp
  then show ?thesis by (simp add: batchDone_def list_all_iff)
qed

theorem batch_completion_witness:
  "run traceSettled initialState = Some (fold fire traceSettled initialState) \<and>
   enabled (fold fire traceSettled initialState) BatchSettled \<and>
   selectedPages (fold fire traceSettled initialState) = {''a''} \<and>
   selectedPages (fire BatchSettled (fold fire traceSettled initialState)) = {} \<and>
   list_all (\<lambda>p. status p \<noteq> PROCESSING) (pages (fire BatchSettled (fold fire traceSettled initialState))) \<and>
   map status (pages (fire BatchSettled (fold fire traceSettled initialState))) = [FAILED, COMPLETED]"
proof -
  have h1: "run traceSettled initialState = Some (fold fire traceSettled initialState)"
    by code_simp
  have h2: "enabled (fold fire traceSettled initialState) BatchSettled"
    by code_simp
  have s1: "selectedPages (fold fire traceSettled initialState) = {''a''}"
    by code_simp
  have s2: "map status (pages (fire BatchSettled (fold fire traceSettled initialState))) =
      [FAILED, COMPLETED]"
    by code_simp
  show ?thesis
    using h1 h2 s1 s2 batch_completion [OF h1 h2] by simp
qed

section \<open>The error of a page that is dispatched again\<close>

text \<open>
  C1: the part on the text holds in every reachable state (lemma \<open>reachable_text\<close>
  below), the part on the error does not. A page that FAILED and is dispatched again by
  the batch keeps its old error while it is PROCESSING and after it is COMPLETED: the
  updaters of lines 105 and 111 leave the field as it is, where the retry clears it at
  line 137. The trace: two pages are uploaded and both dispatched, page b resolves and
  page a rejects, then select-all and a second dispatch.
\<close>

theorem stale_error_after_batch:
  "map_option summary (run traceRedispatched initialState) =
     Some [(''a'', PROCESSING, None, Some ''boom''), (''b'', COMPLETED, Some ''two'', None)] \<and>
   map_option summary
     (run (traceRedispatched @ [BatchOcrSettled ''a'' (Resolved ''one''), BatchSettled]) initialState) =
     Some [(''a'', COMPLETED, Some ''one'', Some ''boom''), (''b'', COMPLETED, Some ''two'', None)]"
  by code_simp

lemma reachable_text:
  "run evs initialState = Some st \<Longrightarrow> p \<in> set (pages st) \<Longrightarrow>
   (text_p p \<noteq> None) = (status p = COMPLETED)"
  by (rule wellFormed_text [OF reachable_wellFormed])

lemma reachable_pending_no_error:
  "run evs initialState = Some st \<Longrightarrow> p \<in> set (pages st) \<Longrightarrow> status p = PENDING \<Longrightarrow>
   error p = None"
  by (rule wellFormed_pending [OF reachable_wellFormed])

end
